theory Spec2Isabelle
  imports Complex_Main
begin

section \<open>Data model of theodore.py\<close>

text \<open>
  \<^verbatim>\<open>class Message\<close>: the channel's name, the id the channel assigned, the payload.
  Python integers are unbounded, so ids are \<open>int\<close>.
\<close>

record message =
  channel_name :: string
  msg_id :: int
  data :: string

text \<open>
  An \<^verbatim>\<open>asyncio.Future\<close> is an object with identity and a state. The model keeps
  all futures created so far in a store (a list; the identity of a future is its index)
  and the deque \<^verbatim>\<open>Channel.waiters\<close> holds identities. A deque or a coroutine
  only ever holds a future that was created before, so an index in use lies within the
  store; the theorems that depend on it say so.
\<close>

datatype future = Pending | Result message | Cancelled

type_synonym heap = "future list"

datatype exn = ValueError | Builtin_TimeoutError | Asyncio_TimeoutError | CancelledError

record channel =
  name :: string
  waiters :: "nat list"
  messages :: "int \<rightharpoonup> message"
  next_id :: int

text \<open>\<^verbatim>\<open>Channel.__init__\<close> (the event loop it stores plays no part here).\<close>

definition Channel_init :: "string \<Rightarrow> channel" where
  "Channel_init nm = \<lparr>name = nm, waiters = [], messages = Map.empty, next_id = 0\<rparr>"

text \<open>\<^verbatim>\<open>Future(loop=...)\<close>: a new pending future.\<close>

definition Future_new :: "heap \<Rightarrow> nat \<times> heap" where
  "Future_new h = (length h, h @ [Pending])"

text \<open>\<^verbatim>\<open>fut.done()\<close> is true of a future with a result and of a cancelled one.\<close>

definition fut_done :: "future \<Rightarrow> bool" where
  "fut_done f = (f \<noteq> Pending)"

definition set_result :: "nat \<Rightarrow> message \<Rightarrow> heap \<Rightarrow> heap" where
  "set_result f m h = h[f := Result m]"

section \<open>Channel\<close>

text \<open>\<^verbatim>\<open>Channel._get_next_id\<close>: increment, then return the new value.\<close>

definition get_next_id :: "channel \<Rightarrow> int \<times> channel" where
  "get_next_id c = (next_id c + 1, c\<lparr>next_id := next_id c + 1\<rparr>)"

text \<open>
  The loop of \<^verbatim>\<open>Channel.push\<close>:
  \<^verbatim>\<open>for fut in self.waiters: if not fut.done(): fut.set_result(message)\<close>.
\<close>

fun notify :: "message \<Rightarrow> nat list \<Rightarrow> heap \<Rightarrow> heap" where
  "notify m [] h = h"
| "notify m (f # fs) h = notify m fs (if \<not> fut_done (h ! f) then set_result f m h else h)"

text \<open>
  The same loop, returning the futures on which it calls \<^verbatim>\<open>set_result\<close>, one entry
  per call.
\<close>

fun set_result_calls :: "message \<Rightarrow> nat list \<Rightarrow> heap \<Rightarrow> nat list" where
  "set_result_calls m [] h = []"
| "set_result_calls m (f # fs) h =
     (if \<not> fut_done (h ! f) then f # set_result_calls m fs (set_result f m h)
      else set_result_calls m fs h)"

text \<open>The message that \<^verbatim>\<open>Channel.push\<close> builds for a payload (line 103).\<close>

definition new_message :: "string \<Rightarrow> channel \<Rightarrow> message" where
  "new_message payload c =
     \<lparr>channel_name = name c, msg_id = fst (get_next_id c), data = payload\<rparr>"

text \<open>
  \<^verbatim>\<open>Channel.push\<close>: take the next id, store the message under it, resolve the pending
  waiters. The deque of waiters is only read.
\<close>

definition push :: "string \<Rightarrow> channel \<Rightarrow> heap \<Rightarrow> channel \<times> heap" where
  "push payload c h =
     (let m = new_message payload c;
          c1 = snd (get_next_id c);
          c2 = c1\<lparr>messages := (messages c1)(msg_id m \<mapsto> m)\<rparr>
      in (c2, notify m (waiters c2) h))"

text \<open>
  \<^verbatim>\<open>Channel.get_next\<close> is a coroutine. Its first part creates a future, appends it to
  the deque and suspends on it; the model returns the future awaited.
\<close>

definition get_next_start :: "channel \<Rightarrow> heap \<Rightarrow> nat \<times> channel \<times> heap" where
  "get_next_start c h =
     (let (f, h1) = Future_new h in (f, c\<lparr>waiters := waiters c @ [f]\<rparr>, h1))"

text \<open>
  What a step of a coroutine of the channel gives: it is suspended on a future, it has
  returned a message, or it has raised.
\<close>

datatype outcome = Suspended nat | Returned message | Raised exn

text \<open>
  Its second part runs when the coroutine is resumed: \<^verbatim>\<open>await fut\<close> gives the
  result of the future (or raises \<^verbatim>\<open>CancelledError\<close> when the future was cancelled),
  and the \<^verbatim>\<open>finally\<close> clause removes the future from the deque
  (\<^verbatim>\<open>deque.remove\<close> removes the first occurrence). A coroutine is resumed only once
  its future is done; on a pending future it stays suspended.
\<close>

definition get_next_resume :: "nat \<Rightarrow> channel \<Rightarrow> heap \<Rightarrow> outcome \<times> channel" where
  "get_next_resume f c h =
     (case h ! f of
        Pending \<Rightarrow> (Suspended f, c)
      | Result m \<Rightarrow> (Returned m, c\<lparr>waiters := remove1 f (waiters c)\<rparr>)
      | Cancelled \<Rightarrow> (Raised CancelledError, c\<lparr>waiters := remove1 f (waiters c)\<rparr>))"

text \<open>
  \<^verbatim>\<open>Channel.get_by_id\<close>: the first part looks the id up in the store and returns at
  once when it is there; otherwise it enters the loop and suspends in
  \<^verbatim>\<open>get_next\<close>.
\<close>

definition get_by_id_start :: "int \<Rightarrow> channel \<Rightarrow> heap \<Rightarrow> outcome \<times> channel \<times> heap" where
  "get_by_id_start k c h =
     (case messages c k of
        Some m \<Rightarrow> (Returned m, c, h)
      | None \<Rightarrow> (case get_next_start c h of (f, c1, h1) \<Rightarrow> (Suspended f, c1, h1)))"

text \<open>
  One turn of the loop \<^verbatim>\<open>while True\<close>: the message that \<^verbatim>\<open>get_next\<close> delivers
  is returned when its id is at least the id asked for, otherwise \<^verbatim>\<open>get_next\<close> is
  called again, with a new future.
\<close>

definition get_by_id_resume :: "int \<Rightarrow> nat \<Rightarrow> channel \<Rightarrow> heap \<Rightarrow> outcome \<times> channel \<times> heap" where
  "get_by_id_resume k f c h =
     (case get_next_resume f c h of
        (Returned m, c1) \<Rightarrow>
          if msg_id m \<ge> k then (Returned m, c1, h)
          else (case get_next_start c1 h of (f1, c2, h2) \<Rightarrow> (Suspended f1, c2, h2))
      | (r, c1) \<Rightarrow> (r, c1, h))"

section \<open>TheodoreServer\<close>

text \<open>
  The server owns the dictionary of channels. The store of futures is kept beside it:
  channels and coroutines share the futures by identity.
\<close>

record world =
  channels :: "string \<rightharpoonup> channel"
  futures :: heap

text \<open>\<^verbatim>\<open>TheodoreServer.__init__\<close>: no channel yet, and no future created yet.\<close>

definition TheodoreServer_init :: world where
  "TheodoreServer_init = \<lparr>channels = Map.empty, futures = []\<rparr>"

text \<open>
  \<^verbatim>\<open>TheodoreServer.get_channel\<close>:
  \<^verbatim>\<open>self.channels.setdefault(channel_name, Channel(channel_name))\<close>.
\<close>

definition get_channel :: "string \<Rightarrow> world \<Rightarrow> channel \<times> world" where
  "get_channel nm s =
     (case channels s nm of
        Some c \<Rightarrow> (c, s)
      | None \<Rightarrow> (Channel_init nm, s\<lparr>channels := (channels s)(nm \<mapsto> Channel_init nm)\<rparr>))"

text \<open>\<^verbatim>\<open>TheodoreServer.push\<close>.\<close>

definition server_push :: "string \<Rightarrow> string \<Rightarrow> world \<Rightarrow> world" where
  "server_push nm payload s =
     (case get_channel nm s of
        (c, s1) \<Rightarrow>
          (case push payload c (futures s1) of
             (c1, h1) \<Rightarrow> s1\<lparr>channels := (channels s1)(nm \<mapsto> c1), futures := h1\<rparr>))"

subsection \<open>The builtin \<^verbatim>\<open>int\<close> on a string\<close>

text \<open>
  A Python \<^verbatim>\<open>str\<close> is a sequence of Unicode code points. The selector of \<^verbatim>\<open>get\<close> is
  such a string (or \<^verbatim>\<open>None\<close>); \<open>str_of\<close> writes a literal of ASCII characters as one.
  Channel names and payloads are keys and contents that the server never looks into.
\<close>

type_synonym str = "nat list"

definition str_of :: "string \<Rightarrow> str" where
  "str_of s = map of_char s"

text \<open>
  \<^verbatim>\<open>int(min_id)\<close> on a string, base 10, as CPython reads it (3.6 to 3.9). First every
  code point from 128 on is replaced: a white space of Unicode by a blank, a decimal
  digit of Unicode by the ASCII digit of its value, anything else by a character that no
  number contains. The white space from 128 on is the fixed list below; the decimal
  digits of Unicode are a table of the interpreter, which is not part of this program:
  it is the parameter \<open>dec\<close>, giving the value of a code point that is a decimal digit.
  Then blanks and the code points 9 to 13 are stripped on both sides, one sign may come
  first, and decimal digits follow, where single underscores may separate digits; on
  anything else \<^verbatim>\<open>int\<close> raises \<^verbatim>\<open>ValueError\<close>. (Python 3.5 takes no underscores.)
\<close>

definition uni_space :: "nat \<Rightarrow> bool" where
  "uni_space c =
     (c \<in> set [0x85, 0xA0, 0x1680, 0x2028, 0x2029, 0x202F, 0x205F, 0x3000]
      \<or> (0x2000 \<le> c \<and> c \<le> 0x200A))"

definition to_ascii :: "(nat \<Rightarrow> nat option) \<Rightarrow> str \<Rightarrow> str" where
  "to_ascii dec s =
     map (\<lambda>c. if c < 128 then c
              else if uni_space c then 32
              else (case dec c of Some d \<Rightarrow> 48 + d | None \<Rightarrow> 63)) s"

definition is_space :: "nat \<Rightarrow> bool" where
  "is_space c = (c \<in> set [9, 10, 11, 12, 13, 32])"

definition is_digit :: "nat \<Rightarrow> bool" where
  "is_digit c = (48 \<le> c \<and> c \<le> 57)"

definition digit_value :: "nat \<Rightarrow> nat" where
  "digit_value c = c - 48"

definition strip :: "str \<Rightarrow> str" where
  "strip s = rev (dropWhile is_space (rev (dropWhile is_space s)))"

text \<open>The digits, with 95 the underscore.\<close>

fun digits :: "nat \<Rightarrow> str \<Rightarrow> nat option" where
  "digits acc [] = None"
| "digits acc [d] = (if is_digit d then Some (10 * acc + digit_value d) else None)"
| "digits acc (d # u # cs) =
     (if \<not> is_digit d then None
      else if u = 95 then digits (10 * acc + digit_value d) cs
      else digits (10 * acc + digit_value d) (u # cs))"

text \<open>The sign: 45 is the minus sign, 43 the plus sign.\<close>

definition int_py :: "(nat \<Rightarrow> nat option) \<Rightarrow> str \<Rightarrow> int option" where
  "int_py dec s =
     (case strip (to_ascii dec s) of
        [] \<Rightarrow> None
      | c # cs \<Rightarrow>
          if c = 45 then map_option (\<lambda>n. - int n) (digits 0 cs)
          else if c = 43 then map_option int (digits 0 cs)
          else map_option int (digits 0 (c # cs)))"

text \<open>
  A table to run examples with: it knows the Arabic-Indic digits, U+0660 to U+0669, and
  no other digit beyond ASCII.
\<close>

definition arabic_indic :: "nat \<Rightarrow> nat option" where
  "arabic_indic c = (if 0x660 \<le> c \<and> c \<le> 0x669 then Some (c - 0x660) else None)"

subsection \<open>\<^verbatim>\<open>TheodoreServer.get\<close>\<close>

text \<open>
  The coroutine object that the \<^verbatim>\<open>if\<close>/\<^verbatim>\<open>elif\<close>/\<^verbatim>\<open>else\<close> of \<^verbatim>\<open>get\<close> builds:
  \<^verbatim>\<open>channel.get_next()\<close> or \<^verbatim>\<open>channel.get_by_id(k)\<close>. Building it runs nothing of
  its body.
\<close>

datatype coro = Get_next | Get_by_id int

text \<open>
  The selector \<^verbatim>\<open>min_id\<close> is \<^verbatim>\<open>None\<close> or a string. The strings \<^verbatim>\<open>next\<close> and
  \<^verbatim>\<open>NaN\<close> select \<^verbatim>\<open>get_next\<close>; \<^verbatim>\<open>None\<close> selects
  \<^verbatim>\<open>get_by_id(channel.next_id - 1)\<close>; any other string goes through \<^verbatim>\<open>int\<close>, which
  raises \<^verbatim>\<open>ValueError\<close> on a string it cannot read.
\<close>

definition dispatch :: "(nat \<Rightarrow> nat option) \<Rightarrow> str option \<Rightarrow> channel \<Rightarrow> exn + coro" where
  "dispatch dec min_id c =
     (if min_id = Some (str_of ''next'') \<or> min_id = Some (str_of ''NaN'') then Inr Get_next
      else (case min_id of
              None \<Rightarrow> Inr (Get_by_id (next_id c - 1))
            | Some tok \<Rightarrow>
                (case int_py dec tok of
                   Some k \<Rightarrow> Inr (Get_by_id k)
                 | None \<Rightarrow> Inl ValueError)))"

text \<open>The first part of the coroutine awaited, and its resumption.\<close>

definition coro_start :: "coro \<Rightarrow> channel \<Rightarrow> heap \<Rightarrow> outcome \<times> channel \<times> heap" where
  "coro_start co c h =
     (case co of
        Get_next \<Rightarrow> (case get_next_start c h of (f, c1, h1) \<Rightarrow> (Suspended f, c1, h1))
      | Get_by_id k \<Rightarrow> get_by_id_start k c h)"

definition coro_resume :: "coro \<Rightarrow> nat \<Rightarrow> channel \<Rightarrow> heap \<Rightarrow> outcome \<times> channel \<times> heap" where
  "coro_resume co f c h =
     (case co of
        Get_next \<Rightarrow> (case get_next_resume f c h of (r, c1) \<Rightarrow> (r, c1, h))
      | Get_by_id k \<Rightarrow> get_by_id_resume k f c h)"

text \<open>
  The states of one call of \<^verbatim>\<open>TheodoreServer.get\<close>: the coroutine object exists and
  has not run yet; it is suspended in \<^verbatim>\<open>wait_for\<close> with a timeout, and the coroutine
  it awaits is a task that has not run yet; it is suspended in \<^verbatim>\<open>wait_for\<close>, the
  coroutine it awaits being suspended on a future of the named channel; it has finished,
  with a value (\<^verbatim>\<open>None\<close> or a message) or an exception.
\<close>

datatype get_state =
    Created string "str option" "real option"
  | Scheduled string coro "real option"
  | Awaiting string coro nat "real option"
  | Finished "exn + message option"

text \<open>
  \<^verbatim>\<open>except TimeoutError: return None\<close>. The module imports
  \<^verbatim>\<open>events, Future, wait, wait_for, FIRST_COMPLETED\<close> from \<^verbatim>\<open>asyncio\<close>, so the name
  \<^verbatim>\<open>TimeoutError\<close> is the builtin exception. \<^verbatim>\<open>wait_for\<close> raises
  \<^verbatim>\<open>asyncio.TimeoutError\<close>, which is another class in every Python whose
  \<^verbatim>\<open>wait_for\<close> takes the argument \<^verbatim>\<open>loop\<close> that \<^verbatim>\<open>get\<close> passes (3.5 to 3.9).
\<close>

definition except_TimeoutError :: "exn \<Rightarrow> exn + message option" where
  "except_TimeoutError e = (if e = Builtin_TimeoutError then Inr None else Inl e)"

text \<open>What \<^verbatim>\<open>get\<close> makes of a step of the coroutine it awaits.\<close>

definition settle :: "string \<Rightarrow> coro \<Rightarrow> real option \<Rightarrow> outcome \<Rightarrow> get_state" where
  "settle nm co tmo r =
     (case r of
        Suspended f \<Rightarrow> Awaiting nm co f tmo
      | Returned m \<Rightarrow> Finished (Inr (Some m))
      | Raised e \<Rightarrow> Finished (except_TimeoutError e))"

text \<open>
  The awaited coroutine runs its first part, on the channel of its name. Channels are
  never removed from the dictionary, so the channel is there.
\<close>

definition inner_start :: "string \<Rightarrow> coro \<Rightarrow> real option \<Rightarrow> world \<Rightarrow> get_state \<times> world" where
  "inner_start nm co tmo s =
     (case channels s nm of
        None \<Rightarrow> (Scheduled nm co tmo, s)
      | Some c \<Rightarrow>
          (case coro_start co c (futures s) of
             (r, c1, h1) \<Rightarrow>
               (settle nm co tmo r,
                s\<lparr>channels := (channels s)(nm \<mapsto> c1), futures := h1\<rparr>)))"

text \<open>
  \<^verbatim>\<open>wait_for(future, timeout, loop=self._loop)\<close>, as in Python 3.7 to 3.9. Without a
  timeout it awaits the coroutine in place, which runs its first part at once. With a
  timeout that is not positive it makes a task of the coroutine, cancels the task
  before it has run and raises \<^verbatim>\<open>asyncio.TimeoutError\<close>. With a positive timeout it
  makes a task of the coroutine and suspends; the task runs its first part on a later
  turn of the event loop. (Python 3.5 and 3.6 treat every timeout as a positive one.)
\<close>

definition wait_for_start :: "string \<Rightarrow> coro \<Rightarrow> real option \<Rightarrow> world \<Rightarrow> get_state \<times> world" where
  "wait_for_start nm co tmo s =
     (case tmo of
        None \<Rightarrow> inner_start nm co tmo s
      | Some t \<Rightarrow>
          if t \<le> 0 then (Finished (except_TimeoutError Asyncio_TimeoutError), s)
          else (Scheduled nm co tmo, s))"

text \<open>
  The first run of \<^verbatim>\<open>get\<close>: it takes the channel (creating it when new), builds the
  coroutine (the \<^verbatim>\<open>ValueError\<close> of \<^verbatim>\<open>int\<close> is raised outside the \<^verbatim>\<open>try\<close>), and
  awaits it through \<^verbatim>\<open>wait_for\<close>.
\<close>

definition get_start ::
  "(nat \<Rightarrow> nat option) \<Rightarrow> string \<Rightarrow> str option \<Rightarrow> real option \<Rightarrow> world \<Rightarrow> get_state \<times> world" where
  "get_start dec nm min_id tmo s =
     (case get_channel nm s of
        (c, s1) \<Rightarrow>
          (case dispatch dec min_id c of
             Inl e \<Rightarrow> (Finished (Inl e), s1)
           | Inr co \<Rightarrow> wait_for_start nm co tmo s1))"

text \<open>
  The event loop resumes the coroutine that a suspended \<^verbatim>\<open>get\<close> awaits, and \<^verbatim>\<open>get\<close>
  with it when that coroutine finishes.
\<close>

definition get_resume :: "string \<Rightarrow> coro \<Rightarrow> nat \<Rightarrow> real option \<Rightarrow> world \<Rightarrow> get_state \<times> world" where
  "get_resume nm co f tmo s =
     (case channels s nm of
        None \<Rightarrow> (Awaiting nm co f tmo, s)
      | Some c \<Rightarrow>
          (case coro_resume co f c (futures s) of
             (r, c1, h1) \<Rightarrow>
               (settle nm co tmo r,
                s\<lparr>channels := (channels s)(nm \<mapsto> c1), futures := h1\<rparr>)))"

text \<open>
  The deadline of \<^verbatim>\<open>wait_for\<close> passes while the awaited coroutine is not finished:
  \<^verbatim>\<open>wait_for\<close> cancels it (a pending future it waits on becomes cancelled, and
  \<^verbatim>\<open>CancelledError\<close> at \<^verbatim>\<open>await fut\<close> runs the \<^verbatim>\<open>finally\<close> clause of
  \<^verbatim>\<open>get_next\<close>) and raises \<^verbatim>\<open>asyncio.TimeoutError\<close> into \<^verbatim>\<open>get\<close>. A call without
  timeout has no deadline.
\<close>

definition get_deadline :: "string \<Rightarrow> coro \<Rightarrow> nat \<Rightarrow> real option \<Rightarrow> world \<Rightarrow> get_state \<times> world" where
  "get_deadline nm co f tmo s =
     (case tmo of
        None \<Rightarrow> (Awaiting nm co f tmo, s)
      | Some t \<Rightarrow>
          (case channels s nm of
             None \<Rightarrow> (Awaiting nm co f tmo, s)
           | Some c \<Rightarrow>
               (Finished (except_TimeoutError Asyncio_TimeoutError),
                s\<lparr>channels := (channels s)(nm \<mapsto> c\<lparr>waiters := remove1 f (waiters c)\<rparr>),
                  futures := (if futures s ! f = Pending then (futures s)[f := Cancelled]
                              else futures s)\<rparr>)))"

text \<open>
  A step of the event loop on a call of \<^verbatim>\<open>get\<close>, and the passing of its deadline. The
  task of a positive timeout is ahead of the timer in the queue of the event loop, so no
  deadline passes before that task has run its first part.
\<close>

fun get_step :: "(nat \<Rightarrow> nat option) \<Rightarrow> get_state \<Rightarrow> world \<Rightarrow> get_state \<times> world" where
  "get_step dec (Created nm min_id tmo) s = get_start dec nm min_id tmo s"
| "get_step dec (Scheduled nm co tmo) s = inner_start nm co tmo s"
| "get_step dec (Awaiting nm co f tmo) s = get_resume nm co f tmo s"
| "get_step dec (Finished r) s = (Finished r, s)"

fun get_timeout :: "get_state \<Rightarrow> world \<Rightarrow> get_state \<times> world" where
  "get_timeout (Awaiting nm co f tmo) s = get_deadline nm co f tmo s"
| "get_timeout t s = (t, s)"

subsection \<open>\<^verbatim>\<open>TheodoreServer.get_multiple\<close>\<close>

text \<open>
  \<^verbatim>\<open>get_multiple\<close> builds one coroutine \<^verbatim>\<open>self.get(channel_name, min_id)\<close> per item
  of the dictionary, none with a timeout, and awaits
  \<^verbatim>\<open>wait(futures, timeout=timeout, return_when=FIRST_COMPLETED)\<close>. \<^verbatim>\<open>asyncio.wait\<close>
  raises \<^verbatim>\<open>ValueError\<close> on an empty list; otherwise it makes a task of each coroutine
  and suspends. The dictionary is its list of items.
\<close>

datatype multi_state =
    Racing "get_state list" "real option"
  | Done "exn + message option"

definition get_multiple_start :: "(string \<times> str option) list \<Rightarrow> real option \<Rightarrow> multi_state" where
  "get_multiple_start items tmo =
     (if items = [] then Done (Inl ValueError)
      else Racing (map (\<lambda>(nm, min_id). Created nm min_id None) items) tmo)"

text \<open>
  \<^verbatim>\<open>wait\<close> returns when a task has finished or the timeout has passed, with the set
  \<^verbatim>\<open>done\<close> of the tasks finished by then.
  \<^verbatim>\<open>for task in done: return task.result()\<close> gives the result of the first task the
  iteration of the set yields, raising what that task raised, and \<^verbatim>\<open>None\<close> follows the
  loop for an empty set. The argument is the list of tasks in the order the set yields
  them.
\<close>

fun results :: "get_state list \<Rightarrow> (exn + message option) list" where
  "results [] = []"
| "results (Finished r # ts) = r # results ts"
| "results (t # ts) = results ts"

definition get_multiple_wake :: "get_state list \<Rightarrow> exn + message option" where
  "get_multiple_wake ts = (case results ts of [] \<Rightarrow> Inr None | r # rs \<Rightarrow> r)"

section \<open>The event loop\<close>

text \<open>
  The program runs on one thread: between two suspension points nothing else runs. A
  run is a list of events: a producer pushes to a channel, a task of \<^verbatim>\<open>get\<close> takes
  its next step, or the deadline of a task passes.
\<close>

datatype event = Push string string | Step nat | Deadline nat

fun exec ::
  "(nat \<Rightarrow> nat option) \<Rightarrow> event \<Rightarrow> get_state list \<times> world \<Rightarrow> get_state list \<times> world" where
  "exec dec (Push nm payload) (ts, s) = (ts, server_push nm payload s)"
| "exec dec (Step i) (ts, s) =
     (if i < length ts then (case get_step dec (ts ! i) s of (t, s1) \<Rightarrow> (ts[i := t], s1))
      else (ts, s))"
| "exec dec (Deadline i) (ts, s) =
     (if i < length ts then (case get_timeout (ts ! i) s of (t, s1) \<Rightarrow> (ts[i := t], s1))
      else (ts, s))"

fun run ::
  "(nat \<Rightarrow> nat option) \<Rightarrow> event list \<Rightarrow> get_state list \<times> world \<Rightarrow> get_state list \<times> world" where
  "run dec [] st = st"
| "run dec (e # es) st = run dec es (exec dec e st)"

section \<open>Runs of a channel\<close>

text \<open>
  What the program does to a channel and to the futures: a push; a call of
  \<^verbatim>\<open>get_next\<close> registering a new waiter; the resumption of a \<^verbatim>\<open>get_next\<close>, which
  removes its future from the deque; the cancellation of a waiting \<^verbatim>\<open>get_next\<close> at
  the deadline of \<^verbatim>\<open>wait_for\<close>, which cancels a pending future and removes it from the
  deque.
\<close>

datatype chan_op = Op_push string | Op_wait | Op_wake nat | Op_cancel nat

fun chan_step :: "chan_op \<Rightarrow> channel \<times> heap \<Rightarrow> channel \<times> heap" where
  "chan_step (Op_push p) (c, h) = push p c h"
| "chan_step Op_wait (c, h) = snd (get_next_start c h)"
| "chan_step (Op_wake f) (c, h) = (snd (get_next_resume f c h), h)"
| "chan_step (Op_cancel f) (c, h) =
     (c\<lparr>waiters := remove1 f (waiters c)\<rparr>,
      if h ! f = Pending then h[f := Cancelled] else h)"

fun chan_run :: "chan_op list \<Rightarrow> channel \<times> heap \<Rightarrow> channel \<times> heap" where
  "chan_run [] st = st"
| "chan_run (x # xs) st = chan_run xs (chan_step x st)"

text \<open>The payloads pushed in a run, in push order.\<close>

fun payloads :: "chan_op list \<Rightarrow> string list" where
  "payloads [] = []"
| "payloads (Op_push p # xs) = p # payloads xs"
| "payloads (x # xs) = payloads xs"

text \<open>The ids that the pushes of a run assign, in push order.\<close>

fun assigned_ids :: "chan_op list \<Rightarrow> channel \<times> heap \<Rightarrow> int list" where
  "assigned_ids [] st = []"
| "assigned_ids (Op_push p # xs) (c, h) =
     msg_id (new_message p c) # assigned_ids xs (push p c h)"
| "assigned_ids (x # xs) st = assigned_ids xs (chan_step x st)"

subsection \<open>Runs of \<^verbatim>\<open>Channel.get_by_id\<close>\<close>

text \<open>
  A coroutine of \<^verbatim>\<open>get_by_id\<close> on its channel, between pushes: an event is a push to
  the channel or the event loop resuming the coroutine. A coroutine that has returned
  or raised takes no further step.
\<close>

datatype chan_event = Pushed string | Wake

fun feed :: "int \<Rightarrow> chan_event list \<Rightarrow> outcome \<times> channel \<times> heap \<Rightarrow> outcome \<times> channel \<times> heap" where
  "feed k [] st = st"
| "feed k (Pushed p # es) (r, c, h) = feed k es (case push p c h of (c1, h1) \<Rightarrow> (r, c1, h1))"
| "feed k (Wake # es) (Suspended f, c, h) = feed k es (get_by_id_resume k f c h)"
| "feed k (Wake # es) (r, c, h) = feed k es (r, c, h)"

text \<open>
  The messages that the calls \<^verbatim>\<open>await self.get_next()\<close> of the loop deliver to the
  coroutine during a run, in order.
\<close>

fun delivered :: "int \<Rightarrow> chan_event list \<Rightarrow> outcome \<times> channel \<times> heap \<Rightarrow> message list" where
  "delivered k [] st = []"
| "delivered k (Pushed p # es) (r, c, h) =
     delivered k es (case push p c h of (c1, h1) \<Rightarrow> (r, c1, h1))"
| "delivered k (Wake # es) (Suspended f, c, h) =
     (case h ! f of Result m \<Rightarrow> [m] | _ \<Rightarrow> []) @ delivered k es (get_by_id_resume k f c h)"
| "delivered k (Wake # es) (r, c, h) = delivered k es (r, c, h)"

text \<open>The run in which the coroutine is resumed after every push.\<close>

fun push_and_wake :: "string list \<Rightarrow> chan_event list" where
  "push_and_wake [] = []"
| "push_and_wake (p # ps) = Pushed p # Wake # push_and_wake ps"

section \<open>Worlds the program can reach\<close>






section \<open>The tasks of \<^verbatim>\<open>get_multiple\<close>\<close>

text \<open>
  \<^verbatim>\<open>get_multiple\<close> is resumed when \<^verbatim>\<open>wait\<close> returns: a task has finished, or the
  timeout (if there is one) has passed. The flag says whether the deadline has passed;
  the tasks come in the order the set \<^verbatim>\<open>done\<close> yields them.
\<close>

definition get_multiple_resume :: "bool \<Rightarrow> multi_state \<Rightarrow> multi_state" where
  "get_multiple_resume late ms =
     (case ms of
        Racing ts tmo \<Rightarrow>
          if results ts = [] \<and> \<not> (late \<and> tmo \<noteq> None) then Racing ts tmo
          else Done (get_multiple_wake ts)
      | Done r \<Rightarrow> Done r)"

text \<open>
  The selectors that \<^verbatim>\<open>get\<close> accepts: \<^verbatim>\<open>None\<close>, the tokens \<^verbatim>\<open>next\<close> and
  \<^verbatim>\<open>NaN\<close>, and the tokens that \<^verbatim>\<open>int\<close> reads.
\<close>

definition accepted :: "(nat \<Rightarrow> nat option) \<Rightarrow> str option \<Rightarrow> bool" where
  "accepted dec min_id =
     (case min_id of
        None \<Rightarrow> True
      | Some tok \<Rightarrow>
          tok = str_of ''next'' \<or> tok = str_of ''NaN'' \<or> int_py dec tok \<noteq> None)"

text \<open>
  What holds of every task of a \<^verbatim>\<open>get_multiple\<close> whose selectors are accepted: it
  has no timeout; not yet run, its selector is accepted; suspended, it awaits a future
  of the store that is not cancelled; finished, it has returned a message.
\<close>

fun candidate_ok :: "(nat \<Rightarrow> nat option) \<Rightarrow> heap \<Rightarrow> get_state \<Rightarrow> bool" where
  "candidate_ok dec h (Created nm min_id tmo) = (accepted dec min_id \<and> tmo = None)"
| "candidate_ok dec h (Scheduled nm co tmo) = False"
| "candidate_ok dec h (Awaiting nm co f tmo) =
     (tmo = None \<and> f < length h \<and> h ! f \<noteq> Cancelled)"
| "candidate_ok dec h (Finished r) = (case r of Inr (Some m) \<Rightarrow> True | _ \<Rightarrow> False)"

section \<open>Properties of the channel\<close>

lemma length_notify: "length (notify m fs h) = length h"
  by (induction fs arbitrary: h) (simp_all add: set_result_def)

lemma nth_notify:
  "f < length h \<Longrightarrow>
   notify m fs h ! f = (if f \<in> set fs \<and> h ! f = Pending then Result m else h ! f)"
proof (induction fs arbitrary: h)
  case Nil
  then show ?case by simp
next
  case (Cons g fs)
  show ?case
  proof (cases "f = g")
    case True
    with Cons show ?thesis by (simp add: set_result_def fut_done_def)
  next
    case False
    with Cons show ?thesis by (simp add: set_result_def fut_done_def)
  qed
qed

lemma count_set_result_calls:
  "\<forall>g\<in>set fs. g < length h \<Longrightarrow>
   count_list (set_result_calls m fs h) f = (if f \<in> set fs \<and> h ! f = Pending then 1 else 0)"
proof (induction fs arbitrary: h)
  case Nil
  then show ?case by simp
next
  case (Cons g fs)
  show ?case
  proof (cases "f = g")
    case True
    with Cons show ?thesis by (simp add: set_result_def fut_done_def)
  next
    case False
    with Cons show ?thesis by (simp add: set_result_def fut_done_def)
  qed
qed

lemma push_next_id: "next_id (fst (push p c h)) = next_id c + 1"
  by (simp add: push_def get_next_id_def Let_def)

lemma push_name: "name (fst (push p c h)) = name c"
  by (simp add: push_def get_next_id_def Let_def)

lemma push_waiters: "waiters (fst (push p c h)) = waiters c"
  by (simp add: push_def get_next_id_def Let_def)

lemma push_messages:
  "messages (fst (push p c h)) = (messages c)(next_id c + 1 \<mapsto> new_message p c)"
  by (simp add: push_def get_next_id_def new_message_def Let_def)

lemma push_heap: "snd (push p c h) = notify (new_message p c) (waiters c) h"
  by (simp add: push_def get_next_id_def Let_def)

lemma chan_step_keeps:
  assumes "\<forall>p. x \<noteq> Op_push p"
  shows "next_id (fst (chan_step x (c, h))) = next_id c"
    and "name (fst (chan_step x (c, h))) = name c"
    and "messages (fst (chan_step x (c, h))) = messages c"
    and "payloads (x # xs) = payloads xs"
    and "assigned_ids (x # xs) (c, h) = assigned_ids xs (chan_step x (c, h))"
proof -
  show "next_id (fst (chan_step x (c, h))) = next_id c"
    using assms
    by (cases x; cases "h ! (case x of Op_wake f \<Rightarrow> f | _ \<Rightarrow> 0)")
      (simp_all add: get_next_start_def Future_new_def get_next_resume_def)
  show "name (fst (chan_step x (c, h))) = name c"
    using assms
    by (cases x; cases "h ! (case x of Op_wake f \<Rightarrow> f | _ \<Rightarrow> 0)")
      (simp_all add: get_next_start_def Future_new_def get_next_resume_def)
  show "messages (fst (chan_step x (c, h))) = messages c"
    using assms
    by (cases x; cases "h ! (case x of Op_wake f \<Rightarrow> f | _ \<Rightarrow> 0)")
      (simp_all add: get_next_start_def Future_new_def get_next_resume_def)
  show "payloads (x # xs) = payloads xs"
    using assms by (cases x) simp_all
  show "assigned_ids (x # xs) (c, h) = assigned_ids xs (chan_step x (c, h))"
    using assms by (cases x) simp_all
qed

lemma chan_run_next_id:
  "next_id (fst (chan_run xs (c, h))) = next_id c + int (length (payloads xs))"
proof (induction xs arbitrary: c h)
  case Nil
  show ?case by simp
next
  case (Cons x xs)
  obtain c1 h1 where st: "chan_step x (c, h) = (c1, h1)" by (cases "chan_step x (c, h)")
  show ?case
  proof (cases "\<exists>p. x = Op_push p")
    case True
    then obtain p where x: "x = Op_push p" by blast
    with st push_next_id [of p c h] have "next_id c1 = next_id c + 1" by simp
    with Cons.IH [of c1 h1] st x show ?thesis by simp
  next
    case False
    then have np: "\<forall>p. x \<noteq> Op_push p" by simp
    note k = chan_step_keeps [OF np]
    from k(1) [of c h] k(4) [of xs] st Cons.IH [of c1 h1]
    show ?thesis by simp
  qed
qed

lemma chan_run_messages:
  "messages (fst (chan_run xs (c, h))) i =
     (if next_id c < i \<and> i \<le> next_id c + int (length (payloads xs))
      then Some \<lparr>channel_name = name c, msg_id = i,
                 data = payloads xs ! nat (i - next_id c - 1)\<rparr>
      else messages c i)"
proof (induction xs arbitrary: c h)
  case Nil
  then show ?case by auto
next
  case (Cons x xs)
  obtain c1 h1 where st: "chan_step x (c, h) = (c1, h1)" by (cases "chan_step x (c, h)")
  show ?case
  proof (cases "\<exists>p. x = Op_push p")
    case False
    then have np: "\<forall>p. x \<noteq> Op_push p" by simp
    note k = chan_step_keeps [OF np]
    from k(1) [of c h] k(2) [of c h] k(3) [of c h] k(4) [of xs] st Cons.IH [of c1 h1]
    show ?thesis by simp
  next
    case True
    then obtain p where x: "x = Op_push p" by blast
    with st have c1: "next_id c1 = next_id c + 1" "name c1 = name c"
      "messages c1 = (messages c)(next_id c + 1 \<mapsto> new_message p c)"
      using push_next_id [of p c h] push_name [of p c h] push_messages [of p c h] by simp_all
    have "messages (fst (chan_run (x # xs) (c, h))) i = messages (fst (chan_run xs (c1, h1))) i"
      using st by simp
    also have "\<dots> = (if next_id c + 1 < i \<and> i \<le> next_id c + 1 + int (length (payloads xs))
        then Some \<lparr>channel_name = name c, msg_id = i,
                   data = payloads xs ! nat (i - (next_id c + 1) - 1)\<rparr>
        else ((messages c)(next_id c + 1 \<mapsto> new_message p c)) i)"
      by (simp add: Cons.IH c1)
    also have "\<dots> = (if next_id c < i \<and> i \<le> next_id c + int (length (payloads (x # xs)))
        then Some \<lparr>channel_name = name c, msg_id = i,
                   data = payloads (x # xs) ! nat (i - next_id c - 1)\<rparr>
        else messages c i)"
    proof (cases "i = next_id c + 1")
      case True
      then show ?thesis using x by (simp add: new_message_def get_next_id_def)
    next
      case False
      have "next_id c + 1 < i \<Longrightarrow>
          nat (i - next_id c - 1) = Suc (nat (i - (next_id c + 1) - 1))"
        by linarith
      with False x show ?thesis by auto
    qed
    finally show ?thesis .
  qed
qed

lemma assigned_ids_eq:
  "assigned_ids xs (c, h) = map (\<lambda>j. next_id c + 1 + int j) [0..<length (payloads xs)]"
proof (induction xs arbitrary: c h)
  case Nil
  then show ?case by simp
next
  case (Cons x xs)
  obtain c1 h1 where st: "chan_step x (c, h) = (c1, h1)" by (cases "chan_step x (c, h)")
  show ?case
  proof (cases "\<exists>p. x = Op_push p")
    case False
    then have np: "\<forall>p. x \<noteq> Op_push p" by simp
    note k = chan_step_keeps [OF np]
    from k(1) [of c h] k(4) [of xs] k(5) [of xs c h] st Cons.IH [of c1 h1]
    show ?thesis by simp
  next
    case True
    then obtain p where x: "x = Op_push p" by blast
    with st push_next_id [of p c h] have c1: "next_id c1 = next_id c + 1" by simp
    have "map (\<lambda>j. next_id c + 1 + int j) [0..<length (payloads (x # xs))]
          = (next_id c + 1) # map (\<lambda>j. next_id c + 1 + int (Suc j)) [0..<length (payloads xs)]"
      using x by (simp add: upt_conv_Cons map_Suc_upt [symmetric] del: upt_Suc)
    moreover have "assigned_ids (x # xs) (c, h) = (next_id c + 1) # assigned_ids xs (c1, h1)"
      using x st by (simp add: new_message_def get_next_id_def)
    ultimately show ?thesis
      by (simp add: Cons.IH c1 add.assoc)
  qed
qed

lemma chan_run_append: "chan_run (xs @ ys) st = chan_run ys (chan_run xs st)"
  by (induction xs arbitrary: st) simp_all

lemma payloads_append: "payloads (xs @ ys) = payloads xs @ payloads ys"
  by (induction xs rule: payloads.induct) simp_all

text \<open>
  Claim C5. Take any channel, with whatever waiters, and any run of pushes mixed with
  registrations, resumptions and cancellations of waiters. The pushes are assigned the
  ids that follow the counter, one by one in push order; each message is stored under
  its id with the payload of its push, and every other entry of the store is left as it
  was. On a new channel the ids are therefore \<open>1, 2, \<dots>, n\<close> for \<open>n\<close> pushes, the store
  holds exactly these messages, and whatever is stored is still stored, unchanged, after
  any further run.
\<close>

theorem push_ids_dense:
  "assigned_ids xs (c, h) = map (\<lambda>j. next_id c + 1 + int j) [0..<length (payloads xs)]
   \<and> next_id (fst (chan_run xs (c, h))) = next_id c + int (length (payloads xs))
   \<and> (\<forall>i. messages (fst (chan_run xs (c, h))) i =
         (if next_id c < i \<and> i \<le> next_id c + int (length (payloads xs))
          then Some \<lparr>channel_name = name c, msg_id = i,
                     data = payloads xs ! nat (i - next_id c - 1)\<rparr>
          else messages c i))
   \<and> assigned_ids xs (Channel_init nm, h) = map int [1..<Suc (length (payloads xs))]
   \<and> (\<forall>i. messages (fst (chan_run xs (Channel_init nm, h))) i =
         (if 1 \<le> i \<and> i \<le> int (length (payloads xs))
          then Some \<lparr>channel_name = nm, msg_id = i, data = payloads xs ! nat (i - 1)\<rparr>
          else None))
   \<and> (\<forall>i m. messages (fst (chan_run xs (Channel_init nm, h))) i = Some m \<longrightarrow>
         messages (fst (chan_run (xs @ ys) (Channel_init nm, h))) i = Some m)"
proof -
  have ids: "assigned_ids xs (Channel_init nm, h) = map int [1..<Suc (length (payloads xs))]"
  proof -
    have "map (\<lambda>j. 1 + int j) [0..<length (payloads xs)]
        = map int (map Suc [0..<length (payloads xs)])"
      by simp
    also have "map Suc [0..<length (payloads xs)] = [1..<Suc (length (payloads xs))]"
      by (simp only: map_Suc_upt One_nat_def)
    finally show ?thesis
      by (simp add: assigned_ids_eq Channel_init_def)
  qed
  have st: "\<And>zs i. messages (fst (chan_run zs (Channel_init nm, h))) i =
         (if 1 \<le> i \<and> i \<le> int (length (payloads zs))
          then Some \<lparr>channel_name = nm, msg_id = i, data = payloads zs ! nat (i - 1)\<rparr>
          else None)"
    by (simp add: chan_run_messages Channel_init_def)
  have keep: "\<And>i m. messages (fst (chan_run xs (Channel_init nm, h))) i = Some m \<Longrightarrow>
         messages (fst (chan_run (xs @ ys) (Channel_init nm, h))) i = Some m"
  proof -
    fix i m
    assume a: "messages (fst (chan_run xs (Channel_init nm, h))) i = Some m"
    then have r: "1 \<le> i \<and> i \<le> int (length (payloads xs))"
      by (simp add: st split: if_splits)
    then have "nat (i - 1) < length (payloads xs)" by linarith
    then have "(payloads xs @ payloads ys) ! nat (i - 1) = payloads xs ! nat (i - 1)"
      by (simp add: nth_append)
    with a r show "messages (fst (chan_run (xs @ ys) (Channel_init nm, h))) i = Some m"
      by (simp add: st payloads_append)
  qed
  from ids st keep assigned_ids_eq [of xs c h] chan_run_next_id [of xs c h]
    chan_run_messages [of xs c h]
  show ?thesis by blast
qed

text \<open>
  A waiter registers, \<^verbatim>\<open>a\<close> is pushed, the waiter is resumed, another registers,
  \<^verbatim>\<open>b\<close> is pushed: the ids are 1 and 2, and the message of \<^verbatim>\<open>a\<close> survives a third
  push.
\<close>

theorem push_ids_dense_witness:
  "assigned_ids [Op_wait, Op_push ''a'', Op_wake 0, Op_wait, Op_push ''b''] (Channel_init ''ch'', [])
     = [1, 2]
   \<and> messages (fst (chan_run [Op_wait, Op_push ''a'', Op_wake 0, Op_wait, Op_push ''b'']
        (Channel_init ''ch'', []))) 1
       = Some \<lparr>channel_name = ''ch'', msg_id = 1, data = ''a''\<rparr>
   \<and> messages (fst (chan_run ([Op_wait, Op_push ''a'', Op_wake 0, Op_wait, Op_push ''b'']
        @ [Op_push ''c'']) (Channel_init ''ch'', []))) 1
       = Some \<lparr>channel_name = ''ch'', msg_id = 1, data = ''a''\<rparr>"
proof -
  let ?xs = "[Op_wait, Op_push ''a'', Op_wake 0, Op_wait, Op_push ''b'']"
  note T = push_ids_dense [of ?xs "Channel_init ''ch''" "[]" "''ch''" "[Op_push ''c'']"]
  have p: "payloads ?xs = [''a'', ''b'']" by simp
  from T have "assigned_ids ?xs (Channel_init ''ch'', []) = map int [1..<Suc (length (payloads ?xs))]"
    by blast
  then have 1: "assigned_ids ?xs (Channel_init ''ch'', []) = [1, 2]"
    by (simp only: p) (simp add: upt_rec)
  from T have "messages (fst (chan_run ?xs (Channel_init ''ch'', []))) 1 =
         (if (1::int) \<le> 1 \<and> 1 \<le> int (length (payloads ?xs))
          then Some \<lparr>channel_name = ''ch'', msg_id = 1, data = payloads ?xs ! nat (1 - 1)\<rparr>
          else None)"
    by blast
  then have 2: "messages (fst (chan_run ?xs (Channel_init ''ch'', []))) 1
       = Some \<lparr>channel_name = ''ch'', msg_id = 1, data = ''a''\<rparr>"
    by (simp only: p) simp
  from T 2 have 3: "messages (fst (chan_run (?xs @ [Op_push ''c'']) (Channel_init ''ch'', []))) 1
       = Some \<lparr>channel_name = ''ch'', msg_id = 1, data = ''a''\<rparr>"
    by blast
  from 1 2 3 show ?thesis by blast
qed

text \<open>
  Claim C7. One push, on a channel whose waiters are futures of the store: every future
  of the deque that is pending gets the message this push built and every other future
  keeps its state (one already resolved by an earlier push, a cancelled one, one that
  is not in the deque); \<^verbatim>\<open>set_result\<close> is called once for each pending waiter and
  never for another future; and a waiter registered after the push is a future that was
  not in the deque at the push, is pending, and leaves the results of the push alone.
\<close>

theorem push_resolves_waiters:
  assumes "\<forall>f\<in>set (waiters c). f < length h"
  shows "length (snd (push p c h)) = length h
   \<and> (\<forall>f<length h. snd (push p c h) ! f =
         (if f \<in> set (waiters c) \<and> h ! f = Pending then Result (new_message p c) else h ! f))
   \<and> (\<forall>f. count_list (set_result_calls (new_message p c) (waiters c) h) f =
         (if f \<in> set (waiters c) \<and> h ! f = Pending then 1 else 0))
   \<and> (case get_next_start (fst (push p c h)) (snd (push p c h)) of
         (f1, c1, h1) \<Rightarrow> f1 \<notin> set (waiters c) \<and> h1 ! f1 = Pending
            \<and> (\<forall>f<length h. h1 ! f = snd (push p c h) ! f))"
proof -
  have 1: "length (snd (push p c h)) = length h"
    by (simp add: push_heap length_notify)
  have 2: "\<forall>f<length h. snd (push p c h) ! f =
         (if f \<in> set (waiters c) \<and> h ! f = Pending then Result (new_message p c) else h ! f)"
    by (simp add: push_heap nth_notify)
  have 3: "\<forall>f. count_list (set_result_calls (new_message p c) (waiters c) h) f =
         (if f \<in> set (waiters c) \<and> h ! f = Pending then 1 else 0)"
    using assms by (simp add: count_set_result_calls)
  have 4: "case get_next_start (fst (push p c h)) (snd (push p c h)) of
         (f1, c1, h1) \<Rightarrow> f1 \<notin> set (waiters c) \<and> h1 ! f1 = Pending
            \<and> (\<forall>f<length h. h1 ! f = snd (push p c h) ! f)"
    using assms 1 by (auto simp: get_next_start_def Future_new_def nth_append)
  from 1 2 3 4 show ?thesis by blast
qed

text \<open>
  A deque of a pending and a cancelled future: the push resolves the first, once, and
  leaves the second.
\<close>

theorem push_resolves_waiters_witness:
  "snd (push ''a'' (Channel_init ''ch''\<lparr>waiters := [0, 1]\<rparr>) [Pending, Cancelled]) ! 0
       = Result \<lparr>channel_name = ''ch'', msg_id = 1, data = ''a''\<rparr>
   \<and> snd (push ''a'' (Channel_init ''ch''\<lparr>waiters := [0, 1]\<rparr>) [Pending, Cancelled]) ! 1
       = Cancelled
   \<and> count_list (set_result_calls (new_message ''a'' (Channel_init ''ch''\<lparr>waiters := [0, 1]\<rparr>))
        [0, 1] [Pending, Cancelled]) 0 = 1"
proof -
  have h: "\<forall>f\<in>set (waiters (Channel_init ''ch''\<lparr>waiters := [0, 1]\<rparr>)). f < length [Pending, Cancelled]"
    by (simp add: Channel_init_def)
  show ?thesis
    using h push_resolves_waiters [OF h, of "''a''"]
    by (simp add: Channel_init_def new_message_def get_next_id_def)
qed

text \<open>
  Claim C4 as stated fails: a waiter registers on a new channel, a push resolves it, and
  right after the push the resolved future is still in the deque.
\<close>

theorem push_clears_waiters_counterexample:
  "get_next_start (Channel_init ''ch'') [] = (0, Channel_init ''ch''\<lparr>waiters := [0]\<rparr>, [Pending])
   \<and> snd (push ''a'' (Channel_init ''ch''\<lparr>waiters := [0]\<rparr>) [Pending]) ! 0
       = Result \<lparr>channel_name = ''ch'', msg_id = 1, data = ''a''\<rparr>
   \<and> waiters (fst (push ''a'' (Channel_init ''ch''\<lparr>waiters := [0]\<rparr>) [Pending])) = [0]"
  by (simp add: get_next_start_def Future_new_def Channel_init_def push_def new_message_def
      get_next_id_def set_result_def fut_done_def Let_def)

text \<open>
  Claim C4, amended. \<^verbatim>\<open>Channel.push\<close> leaves the deque of waiters as it was, so the
  futures it resolved are still registered when it returns; a future leaves the deque
  when the \<^verbatim>\<open>get_next\<close> that registered it is resumed, whose \<^verbatim>\<open>finally\<close> clause
  removes that one future.
\<close>

theorem push_keeps_waiters:
  "waiters (fst (push p c h)) = waiters c
   \<and> (fut_done (snd (push p c h) ! f) \<longrightarrow>
        waiters (snd (get_next_resume f (fst (push p c h)) (snd (push p c h))))
          = remove1 f (waiters c))"
  by (cases "snd (push p c h) ! f") (simp_all add: push_waiters get_next_resume_def fut_done_def)

text \<open>
  The waiter of the counterexample leaves the deque when its coroutine is resumed.
\<close>

theorem push_keeps_waiters_witness:
  "waiters (fst (push ''a'' (Channel_init ''ch''\<lparr>waiters := [0]\<rparr>) [Pending])) = [0]
   \<and> fut_done (snd (push ''a'' (Channel_init ''ch''\<lparr>waiters := [0]\<rparr>) [Pending]) ! 0)
   \<and> waiters (snd (get_next_resume 0 (fst (push ''a'' (Channel_init ''ch''\<lparr>waiters := [0]\<rparr>) [Pending]))
        (snd (push ''a'' (Channel_init ''ch''\<lparr>waiters := [0]\<rparr>) [Pending])))) = []"
proof -
  have d: "fut_done (snd (push ''a'' (Channel_init ''ch''\<lparr>waiters := [0]\<rparr>) [Pending]) ! 0)"
    by (simp add: Channel_init_def push_def new_message_def
      get_next_id_def set_result_def fut_done_def Let_def)
  show ?thesis
    using d push_keeps_waiters [of "''a''" "Channel_init ''ch''\<lparr>waiters := [0]\<rparr>" "[Pending]" 0]
    by (simp add: Channel_init_def)
qed

section \<open>Properties of \<^verbatim>\<open>Channel.get_by_id\<close>\<close>

lemma feed_finished:
  "\<forall>f. r \<noteq> Suspended f \<Longrightarrow> fst (feed k es (r, c, h)) = r \<and> delivered k es (r, c, h) = []"
proof (induction es arbitrary: c h)
  case Nil
  then show ?case by simp
next
  case (Cons e es)
  show ?case
  proof (cases e)
    case (Pushed p)
    obtain c1 h1 where "push p c h = (c1, h1)" by (cases "push p c h")
    with Pushed Cons show ?thesis by simp
  next
    case Wake
    with Cons show ?thesis by (cases r) simp_all
  qed
qed

lemma push_keeps_live:
  "f < length h \<Longrightarrow> h ! f \<noteq> Cancelled \<Longrightarrow>
   f < length (snd (push p c h)) \<and> snd (push p c h) ! f \<noteq> Cancelled"
  by (simp add: push_heap length_notify nth_notify)

lemma feed_first_delivered:
  "f < length h \<Longrightarrow> h ! f \<noteq> Cancelled \<Longrightarrow>
   (case find (\<lambda>m. k \<le> msg_id m) (delivered k es (Suspended f, c, h)) of
      Some m \<Rightarrow> fst (feed k es (Suspended f, c, h)) = Returned m
    | None \<Rightarrow> \<exists>f1. fst (feed k es (Suspended f, c, h)) = Suspended f1)"
proof (induction es arbitrary: f c h)
  case Nil
  then show ?case by simp
next
  case (Cons e es)
  show ?case
  proof (cases e)
    case (Pushed p)
    obtain c1 h1 where ph: "push p c h = (c1, h1)" by (cases "push p c h")
    from push_keeps_live [OF Cons.prems, of p c] ph
    have "f < length h1" "h1 ! f \<noteq> Cancelled" by simp_all
    from Cons.IH [OF this, of c1] Pushed ph show ?thesis by (simp split: option.splits)
  next
    case Wake
    show ?thesis
    proof (cases "h ! f")
      case Pending
      then have "get_by_id_resume k f c h = (Suspended f, c, h)"
        by (simp add: get_by_id_resume_def get_next_resume_def)
      with Wake Pending Cons.IH [OF Cons.prems, of c] show ?thesis by (simp split: option.splits)
    next
      case (Result m)
      show ?thesis
      proof (cases "k \<le> msg_id m")
        case True
        with Result have "get_by_id_resume k f c h
            = (Returned m, c\<lparr>waiters := remove1 f (waiters c)\<rparr>, h)"
          by (simp add: get_by_id_resume_def get_next_resume_def)
        with Wake Result True show ?thesis
          by (simp add: feed_finished)
      next
        case False
        with Result have r: "get_by_id_resume k f c h
            = (Suspended (length h), c\<lparr>waiters := remove1 f (waiters c) @ [length h]\<rparr>,
               h @ [Pending])"
          by (simp add: get_by_id_resume_def get_next_resume_def get_next_start_def
              Future_new_def)
        have "length h < length (h @ [Pending])" "(h @ [Pending]) ! length h \<noteq> Cancelled"
          by simp_all
        from Cons.IH [OF this, of "c\<lparr>waiters := remove1 f (waiters c) @ [length h]\<rparr>"]
          Wake Result False r show ?thesis by (simp split: option.splits)
      qed
    next
      case Cancelled
      with Cons.prems show ?thesis by simp
    qed
  qed
qed


lemma feed_push_and_wake:
  "f < length h \<Longrightarrow> h ! f = Pending \<Longrightarrow> f \<in> set (waiters c) \<Longrightarrow>
   max 1 (k - next_id c) \<le> int (length ps) \<Longrightarrow>
   fst (feed k (push_and_wake ps) (Suspended f, c, h)) =
     Returned \<lparr>channel_name = name c, msg_id = max k (next_id c + 1),
               data = ps ! nat (max k (next_id c + 1) - next_id c - 1)\<rparr>"
proof (induction ps arbitrary: f c h)
  case Nil
  then show ?case by simp
next
  case (Cons p ps)
  obtain c1 h1 where ph: "push p c h = (c1, h1)" by (cases "push p c h")
  have c1: "next_id c1 = next_id c + 1" "name c1 = name c" "waiters c1 = waiters c"
    using push_next_id [of p c h] push_name [of p c h] push_waiters [of p c h] ph by simp_all
  have h1: "length h1 = length h" "h1 ! f = Result (new_message p c)"
    using push_heap [of p c h] ph Cons.prems by (simp_all add: length_notify nth_notify)
  have m: "new_message p c = \<lparr>channel_name = name c, msg_id = next_id c + 1, data = p\<rparr>"
    by (simp add: new_message_def get_next_id_def)
  show ?case
  proof (cases "k \<le> next_id c + 1")
    case True
    then have "get_by_id_resume k f c1 h1
        = (Returned (new_message p c), c1\<lparr>waiters := remove1 f (waiters c1)\<rparr>, h1)"
      using h1 m by (simp add: get_by_id_resume_def get_next_resume_def)
    then have "fst (feed k (push_and_wake (p # ps)) (Suspended f, c, h)) = Returned (new_message p c)"
      using ph by (simp add: feed_finished)
    moreover have "max k (next_id c + 1) = next_id c + 1" using True by simp
    ultimately show ?thesis using m by simp
  next
    case False
    let ?c2 = "c1\<lparr>waiters := remove1 f (waiters c1) @ [length h1]\<rparr>"
    from False have r: "get_by_id_resume k f c1 h1 = (Suspended (length h1), ?c2, h1 @ [Pending])"
      using h1 m by (simp add: get_by_id_resume_def get_next_resume_def get_next_start_def
          Future_new_def)
    have pre: "length h1 < length (h1 @ [Pending])" "(h1 @ [Pending]) ! length h1 = Pending"
      "length h1 \<in> set (waiters ?c2)"
      by simp_all
    have len: "max 1 (k - next_id ?c2) \<le> int (length ps)"
      using Cons.prems(4) False c1 by simp
    have "fst (feed k (push_and_wake (p # ps)) (Suspended f, c, h))
          = fst (feed k (push_and_wake ps) (Suspended (length h1), ?c2, h1 @ [Pending]))"
      using ph r by simp
    also note Cons.IH [OF pre len]
    finally have "fst (feed k (push_and_wake (p # ps)) (Suspended f, c, h)) =
      Returned \<lparr>channel_name = name c, msg_id = max k (next_id c + 1 + 1),
               data = ps ! nat (max k (next_id c + 1 + 1) - (next_id c + 1) - 1)\<rparr>"
      using c1 by simp
    moreover have "max k (next_id c + 1 + 1) = k" "max k (next_id c + 1) = k"
      using False by simp_all
    moreover have "nat (k - next_id c - 1) = Suc (nat (k - (next_id c + 1) - 1))"
      using False by linarith
    ultimately show ?thesis by simp
  qed
qed

text \<open>
  Claim C6. \<^verbatim>\<open>get_by_id(k)\<close> returns the stored message at once, and changes nothing,
  when the store holds \<open>k\<close>. Otherwise it registers a new pending future and suspends;
  then, whatever pushes and resumptions follow, it has returned the first message
  delivered to it whose id is at least \<open>k\<close>, and it is still suspended as long as no
  such message was delivered. When it is resumed after every push it returns the message
  of the first push that assigns an id of at least \<open>k\<close>, as soon as the pushes reach
  \<open>k\<close>.
\<close>

theorem get_by_id_first_satisfying:
  "(messages c k = Some m \<longrightarrow> get_by_id_start k c h = (Returned m, c, h))
   \<and> (messages c k = None \<longrightarrow>
        get_by_id_start k c h
          = (Suspended (length h), c\<lparr>waiters := waiters c @ [length h]\<rparr>, h @ [Pending])
        \<and> (case find (\<lambda>m. k \<le> msg_id m) (delivered k es (get_by_id_start k c h)) of
              Some m1 \<Rightarrow> fst (feed k es (get_by_id_start k c h)) = Returned m1
            | None \<Rightarrow> \<exists>f1. fst (feed k es (get_by_id_start k c h)) = Suspended f1)
        \<and> (max 1 (k - next_id c) \<le> int (length ps) \<longrightarrow>
             fst (feed k (push_and_wake ps) (get_by_id_start k c h)) =
               Returned \<lparr>channel_name = name c, msg_id = max k (next_id c + 1),
                         data = ps ! nat (max k (next_id c + 1) - next_id c - 1)\<rparr>))"
proof -
  have a: "messages c k = Some m \<Longrightarrow> get_by_id_start k c h = (Returned m, c, h)"
    by (simp add: get_by_id_start_def)
  have b: "messages c k = None \<Longrightarrow> get_by_id_start k c h
          = (Suspended (length h), c\<lparr>waiters := waiters c @ [length h]\<rparr>, h @ [Pending])"
    by (simp add: get_by_id_start_def get_next_start_def Future_new_def)
  have live: "length h < length (h @ [Pending])" "(h @ [Pending]) ! length h \<noteq> Cancelled"
    "(h @ [Pending]) ! length h = Pending"
    "length h \<in> set (waiters (c\<lparr>waiters := waiters c @ [length h]\<rparr>))"
    by simp_all
  have c: "messages c k = None \<Longrightarrow>
        (case find (\<lambda>m. k \<le> msg_id m) (delivered k es (get_by_id_start k c h)) of
              Some m1 \<Rightarrow> fst (feed k es (get_by_id_start k c h)) = Returned m1
            | None \<Rightarrow> \<exists>f1. fst (feed k es (get_by_id_start k c h)) = Suspended f1)"
    using feed_first_delivered [OF live(1,2), of k es "c\<lparr>waiters := waiters c @ [length h]\<rparr>"]
    by (simp only: b)
  have d: "messages c k = None \<Longrightarrow> max 1 (k - next_id c) \<le> int (length ps) \<Longrightarrow>
             fst (feed k (push_and_wake ps) (get_by_id_start k c h)) =
               Returned \<lparr>channel_name = name c, msg_id = max k (next_id c + 1),
                         data = ps ! nat (max k (next_id c + 1) - next_id c - 1)\<rparr>"
    using feed_push_and_wake [OF live(1,3,4), of k ps] by (simp add: b)
  from a b c d show ?thesis by blast
qed

text \<open>
  The id 1 is returned from the store; asked for the id 2 on a new channel, the coroutine
  passes over the first push and returns the second.
\<close>

theorem get_by_id_first_satisfying_witness:
  "get_by_id_start 1 (fst (push ''a'' (Channel_init ''ch'') [])) []
     = (Returned \<lparr>channel_name = ''ch'', msg_id = 1, data = ''a''\<rparr>,
        fst (push ''a'' (Channel_init ''ch'') []), [])
   \<and> fst (feed 2 (push_and_wake [''a'', ''b'']) (get_by_id_start 2 (Channel_init ''ch'') []))
     = Returned \<lparr>channel_name = ''ch'', msg_id = 2, data = ''b''\<rparr>"
proof -
  have 1: "messages (fst (push ''a'' (Channel_init ''ch'') [])) 1
      = Some \<lparr>channel_name = ''ch'', msg_id = 1, data = ''a''\<rparr>"
    by (simp add: push_messages new_message_def get_next_id_def Channel_init_def)
  have 2: "messages (Channel_init ''ch'') 2 = None"
    by (simp add: Channel_init_def)
  have 3: "max 1 (2 - next_id (Channel_init ''ch'')) \<le> int (length [''a'', ''b''])"
    by (simp add: Channel_init_def)
  from 1 get_by_id_first_satisfying [of "fst (push ''a'' (Channel_init ''ch'') [])" 1
        "\<lparr>channel_name = ''ch'', msg_id = 1, data = ''a''\<rparr>" "[]" "[]" "[]"]
  have a: "get_by_id_start 1 (fst (push ''a'' (Channel_init ''ch'') [])) []
     = (Returned \<lparr>channel_name = ''ch'', msg_id = 1, data = ''a''\<rparr>,
        fst (push ''a'' (Channel_init ''ch'') []), [])"
    by blast
  from 2 3 get_by_id_first_satisfying [of "Channel_init ''ch''" 2 undefined "[]" "[]"
        "[''a'', ''b'']"]
  have "fst (feed 2 (push_and_wake [''a'', ''b'']) (get_by_id_start 2 (Channel_init ''ch'') []))
     = Returned \<lparr>channel_name = name (Channel_init ''ch''),
         msg_id = max 2 (next_id (Channel_init ''ch'') + 1),
         data = [''a'', ''b''] ! nat (max 2 (next_id (Channel_init ''ch'') + 1)
                  - next_id (Channel_init ''ch'') - 1)\<rparr>"
    by blast
  also have "\<dots> = Returned \<lparr>channel_name = ''ch'', msg_id = 2, data = ''b''\<rparr>"
    by (simp add: Channel_init_def)
  finally show ?thesis using a by blast
qed

section \<open>The invariant of reachable worlds\<close>









lemma get_channel_futures: "futures (snd (get_channel nm s)) = futures s"
  by (simp add: get_channel_def split: option.splits)















section \<open>Properties of the server\<close>

lemmas eval_defs = get_start_def get_channel_def server_push_def TheodoreServer_init_def
  Channel_init_def dispatch_def coro_start_def get_by_id_start_def get_next_start_def
  Future_new_def settle_def push_def new_message_def get_next_id_def Let_def
  set_result_def fut_done_def except_TimeoutError_def get_deadline_def
  wait_for_start_def inner_start_def

lemmas int_py_defs = int_py_def strip_def is_space_def is_digit_def digit_value_def
  to_ascii_def uni_space_def str_of_def arabic_indic_def

text \<open>
  Claim C1. One push of \<^verbatim>\<open>a\<close> to \<^verbatim>\<open>ch\<close>, then \<^verbatim>\<open>get(ch, None)\<close>: the counter is 1,
  so the call asks \<^verbatim>\<open>get_by_id\<close> for the id 0, which the store does not hold, and
  suspends on a new future that it registers in the deque. It does not return the message
  of id 1.
\<close>

theorem get_latest_after_one_push:
  "fst (get_start dec ''ch'' None None (server_push ''ch'' ''a'' TheodoreServer_init))
     = Awaiting ''ch'' (Get_by_id 0) 0 None
   \<and> futures (snd (get_start dec ''ch'' None None (server_push ''ch'' ''a'' TheodoreServer_init)))
     = [Pending]
   \<and> map_option waiters (channels (snd (get_start dec ''ch'' None None
        (server_push ''ch'' ''a'' TheodoreServer_init))) ''ch'') = Some [0]"
  by (simp add: eval_defs)

text \<open>
  Claim C2 as stated fails: the token \<^verbatim>\<open>abc\<close> is neither \<^verbatim>\<open>next\<close> nor a number, and
  \<^verbatim>\<open>get\<close> raises \<^verbatim>\<open>ValueError\<close>.
\<close>

theorem get_unparseable_counterexample:
  "get_start arabic_indic ''ch'' (Some (str_of ''abc'')) None TheodoreServer_init
     = (Finished (Inl ValueError), snd (get_channel ''ch'' TheodoreServer_init))"
  by (simp add: eval_defs int_py_defs)

text \<open>
  Claim C2, amended. \<^verbatim>\<open>get\<close> treats exactly the tokens \<^verbatim>\<open>next\<close> and \<^verbatim>\<open>NaN\<close> as
  \<^verbatim>\<open>next\<close>: on them it awaits \<^verbatim>\<open>get_next\<close>, whatever the timeout, and without
  timeout it suspends on a new future. A token that \<^verbatim>\<open>int\<close> reads as \<open>k\<close> makes it await
  \<^verbatim>\<open>get_by_id(k)\<close> instead. On any other token \<^verbatim>\<open>get\<close> raises \<^verbatim>\<open>ValueError\<close>, whatever
  the timeout, having done no more than look the channel up.
\<close>

theorem get_unparseable_selector:
  "(tok = str_of ''next'' \<or> tok = str_of ''NaN'' \<longrightarrow>
      dispatch dec (Some tok) c = Inr Get_next
      \<and> get_start dec nm (Some tok) tmo s
          = wait_for_start nm Get_next tmo (snd (get_channel nm s))
      \<and> fst (get_start dec nm (Some tok) None s) = Awaiting nm Get_next (length (futures s)) None)
   \<and> (tok \<noteq> str_of ''next'' \<and> tok \<noteq> str_of ''NaN'' \<longrightarrow>
        (\<forall>k. int_py dec tok = Some k \<longrightarrow>
           dispatch dec (Some tok) c = Inr (Get_by_id k)
           \<and> get_start dec nm (Some tok) tmo s
               = wait_for_start nm (Get_by_id k) tmo (snd (get_channel nm s)))
        \<and> (int_py dec tok = None \<longrightarrow>
           dispatch dec (Some tok) c = Inl ValueError
           \<and> get_start dec nm (Some tok) tmo s
               = (Finished (Inl ValueError), snd (get_channel nm s))))"
proof -
  obtain c0 s1 where g: "get_channel nm s = (c0, s1)" by (cases "get_channel nm s")
  have ch: "channels s1 nm = Some c0" "futures s1 = futures s"
    using g by (auto simp: get_channel_def split: option.splits)
  have 1: "tok = str_of ''next'' \<or> tok = str_of ''NaN'' \<Longrightarrow>
      dispatch dec (Some tok) c = Inr Get_next
      \<and> get_start dec nm (Some tok) tmo s
          = wait_for_start nm Get_next tmo (snd (get_channel nm s))
      \<and> fst (get_start dec nm (Some tok) None s) = Awaiting nm Get_next (length (futures s)) None"
    using g ch
    by (auto simp: get_start_def dispatch_def wait_for_start_def inner_start_def coro_start_def
        get_next_start_def Future_new_def settle_def)
  have 2: "\<And>k. tok \<noteq> str_of ''next'' \<Longrightarrow> tok \<noteq> str_of ''NaN'' \<Longrightarrow> int_py dec tok = Some k \<Longrightarrow>
           dispatch dec (Some tok) c = Inr (Get_by_id k)
           \<and> get_start dec nm (Some tok) tmo s
               = wait_for_start nm (Get_by_id k) tmo (snd (get_channel nm s))"
    using g by (simp add: get_start_def dispatch_def)
  have 3: "tok \<noteq> str_of ''next'' \<Longrightarrow> tok \<noteq> str_of ''NaN'' \<Longrightarrow> int_py dec tok = None \<Longrightarrow>
           dispatch dec (Some tok) c = Inl ValueError
           \<and> get_start dec nm (Some tok) tmo s
               = (Finished (Inl ValueError), snd (get_channel nm s))"
    using g by (simp add: get_start_def dispatch_def)
  from 1 2 3 show ?thesis by blast
qed

text \<open>
  \<^verbatim>\<open>NaN\<close> waits for the next message, \<^verbatim>\<open>12\<close> waits for the id 12, \<^verbatim>\<open>latest\<close>
  raises.
\<close>

theorem get_unparseable_selector_witness:
  "fst (get_start arabic_indic ''ch'' (Some (str_of ''NaN'')) None TheodoreServer_init)
     = Awaiting ''ch'' Get_next 0 None
   \<and> dispatch arabic_indic (Some (str_of ''12'')) (Channel_init ''ch'') = Inr (Get_by_id 12)
   \<and> get_start arabic_indic ''ch'' (Some (str_of ''latest'')) None TheodoreServer_init
       = (Finished (Inl ValueError), snd (get_channel ''ch'' TheodoreServer_init))"
proof -
  have a: "int_py arabic_indic (str_of ''latest'') = None"
    "int_py arabic_indic (str_of ''12'') = Some 12"
    by (simp_all add: int_py_defs)
  have b: "str_of ''latest'' \<noteq> str_of ''next''" "str_of ''latest'' \<noteq> str_of ''NaN''"
    "str_of ''12'' \<noteq> str_of ''next''" "str_of ''12'' \<noteq> str_of ''NaN''"
    by (simp_all add: str_of_def)
  have l: "length (futures TheodoreServer_init) = 0"
    by (simp add: TheodoreServer_init_def)
  from get_unparseable_selector [of "str_of ''NaN''" arabic_indic "Channel_init ''ch''" "''ch''"
      None TheodoreServer_init]
  have 1: "fst (get_start arabic_indic ''ch'' (Some (str_of ''NaN'')) None TheodoreServer_init)
     = Awaiting ''ch'' Get_next 0 None"
    unfolding l by blast
  from a b get_unparseable_selector [of "str_of ''12''" arabic_indic "Channel_init ''ch''" "''ch''"
      None TheodoreServer_init]
  have 2: "dispatch arabic_indic (Some (str_of ''12'')) (Channel_init ''ch'') = Inr (Get_by_id 12)"
    by blast
  from a b get_unparseable_selector [of "str_of ''latest''" arabic_indic "Channel_init ''ch''"
      "''ch''" None TheodoreServer_init]
  have 3: "get_start arabic_indic ''ch'' (Some (str_of ''latest'')) None TheodoreServer_init
       = (Finished (Inl ValueError), snd (get_channel ''ch'' TheodoreServer_init))"
    by blast
  from 1 2 3 show ?thesis by blast
qed

text \<open>
  Claim C3. \<^verbatim>\<open>get(ch, "next", timeout=.1)\<close> on a new server: \<^verbatim>\<open>wait_for\<close> makes a task
  of \<^verbatim>\<open>get_next\<close>, the task registers a new future and suspends on it, and when the
  deadline passes with no push the call ends with \<^verbatim>\<open>asyncio.TimeoutError\<close> raised, not
  with \<^verbatim>\<open>None\<close> returned. With a timeout that is not positive the call ends so at once.
\<close>

theorem get_timeout_raises:
  "get_start dec ''ch'' (Some (str_of ''next'')) (Some (1 / 10)) TheodoreServer_init
     = (Scheduled ''ch'' Get_next (Some (1 / 10)),
        \<lparr>channels = [''ch'' \<mapsto> Channel_init ''ch''], futures = []\<rparr>)
   \<and> get_step dec (Scheduled ''ch'' Get_next (Some (1 / 10)))
        \<lparr>channels = [''ch'' \<mapsto> Channel_init ''ch''], futures = []\<rparr>
     = (Awaiting ''ch'' Get_next 0 (Some (1 / 10)),
        \<lparr>channels = [''ch'' \<mapsto> (Channel_init ''ch'')\<lparr>waiters := [0]\<rparr>], futures = [Pending]\<rparr>)
   \<and> fst (get_timeout (Awaiting ''ch'' Get_next 0 (Some (1 / 10)))
        \<lparr>channels = [''ch'' \<mapsto> (Channel_init ''ch'')\<lparr>waiters := [0]\<rparr>], futures = [Pending]\<rparr>)
     = Finished (Inl Asyncio_TimeoutError)
   \<and> fst (run dec [Step 0, Step 0, Deadline 0]
        ([Created ''ch'' (Some (str_of ''next'')) (Some (1 / 10))], TheodoreServer_init))
     = [Finished (Inl Asyncio_TimeoutError)]
   \<and> fst (get_start dec ''ch'' (Some (str_of ''next'')) (Some 0) TheodoreServer_init)
     = Finished (Inl Asyncio_TimeoutError)"
  by (simp add: eval_defs)

text \<open>
  Claim C9. \<^verbatim>\<open>get_multiple\<close> on an empty dictionary ends at once with \<^verbatim>\<open>ValueError\<close>
  raised, which is not the result \<^verbatim>\<open>None\<close> of a wait that found nothing, and it is
  never in the state of waiting for tasks: no \<^verbatim>\<open>get\<close> was built.
\<close>

theorem get_multiple_empty:
  "get_multiple_start [] tmo = Done (Inl ValueError)
   \<and> get_multiple_start [] tmo \<noteq> Done (Inr None)
   \<and> (\<forall>ts. get_multiple_start [] tmo \<noteq> Racing ts tmo)"
  by (simp add: get_multiple_start_def)

section \<open>A call of \<^verbatim>\<open>get\<close> between pushes\<close>


lemma server_push_futures:
  "futures (server_push nm p s)
     = notify (new_message p (fst (get_channel nm s))) (waiters (fst (get_channel nm s)))
         (futures s)"
  by (cases "channels s nm") (simp_all add: server_push_def get_channel_def split_beta push_heap)

















section \<open>Properties of \<^verbatim>\<open>get_multiple\<close>\<close>

lemma candidate_ok_push:
  "candidate_ok dec (futures s) t \<Longrightarrow> candidate_ok dec (futures (server_push nm p s)) t"
  by (cases t) (simp_all add: server_push_futures nth_notify length_notify)

lemma candidate_ok_append: "candidate_ok dec h t \<Longrightarrow> candidate_ok dec (h @ xs) t"
  by (cases t) (simp_all add: nth_append)

lemma get_next_start_eq:
  "get_next_start c h = (length h, c\<lparr>waiters := waiters c @ [length h]\<rparr>, h @ [Pending])"
  by (simp add: get_next_start_def Future_new_def)

lemma coro_start_shape:
  "(\<exists>m. coro_start co c h = (Returned m, c, h))
   \<or> coro_start co c h = (Suspended (length h), c\<lparr>waiters := waiters c @ [length h]\<rparr>, h @ [Pending])"
proof (cases co)
  case Get_next
  then show ?thesis by (simp add: coro_start_def get_next_start_eq)
next
  case (Get_by_id k)
  then show ?thesis
    by (cases "messages c k") (simp_all add: coro_start_def get_by_id_start_def get_next_start_eq)
qed

lemma coro_resume_shape:
  assumes "h ! f \<noteq> Cancelled"
  shows "(\<exists>m c1. coro_resume co f c h = (Returned m, c1, h))
   \<or> coro_resume co f c h = (Suspended f, c, h)
   \<or> (\<exists>c1. coro_resume co f c h = (Suspended (length h), c1, h @ [Pending]))"
proof (cases "h ! f")
  case Pending
  then show ?thesis
    by (cases co) (simp_all add: coro_resume_def get_by_id_resume_def get_next_resume_def)
next
  case (Result m)
  then show ?thesis
    by (cases co)
      (simp_all add: coro_resume_def get_by_id_resume_def get_next_resume_def get_next_start_eq)
next
  case Cancelled
  with assms show ?thesis by simp
qed

lemma dispatch_accepted: "accepted dec min_id \<Longrightarrow> \<exists>co. dispatch dec min_id c = Inr co"
  by (cases min_id) (auto simp: accepted_def dispatch_def)

lemma get_start_ok:
  assumes "accepted dec min_id"
  shows "candidate_ok dec (futures (snd (get_start dec nm min_id None s)))
      (fst (get_start dec nm min_id None s))
    \<and> (\<exists>xs. futures (snd (get_start dec nm min_id None s)) = futures s @ xs)"
proof -
  obtain c s1 where g: "get_channel nm s = (c, s1)" by (cases "get_channel nm s")
  then have s1: "futures s1 = futures s" "channels s1 nm = Some c"
    by (auto simp: get_channel_def split: option.splits)
  from dispatch_accepted [OF assms] obtain co where d: "dispatch dec min_id c = Inr co" by blast
  from coro_start_shape [of co c "futures s"] show ?thesis
  proof
    assume "\<exists>m. coro_start co c (futures s) = (Returned m, c, futures s)"
    then obtain m where "coro_start co c (futures s) = (Returned m, c, futures s)" by blast
    with g d s1 show ?thesis
      by (simp add: get_start_def wait_for_start_def inner_start_def settle_def)
  next
    assume "coro_start co c (futures s)
      = (Suspended (length (futures s)), c\<lparr>waiters := waiters c @ [length (futures s)]\<rparr>,
         futures s @ [Pending])"
    with g d s1 show ?thesis
      by (simp add: get_start_def wait_for_start_def inner_start_def settle_def)
  qed
qed

lemma get_resume_ok:
  assumes "f < length (futures s)" "futures s ! f \<noteq> Cancelled"
  shows "candidate_ok dec (futures (snd (get_resume nm co f None s))) (fst (get_resume nm co f None s))
    \<and> (\<exists>xs. futures (snd (get_resume nm co f None s)) = futures s @ xs)"
proof (cases "channels s nm")
  case None
  with assms show ?thesis by (simp add: get_resume_def)
next
  case (Some c)
  from coro_resume_shape [OF assms(2), of co c]
  consider m c1 where "coro_resume co f c (futures s) = (Returned m, c1, futures s)"
    | "coro_resume co f c (futures s) = (Suspended f, c, futures s)"
    | c1 where "coro_resume co f c (futures s)
        = (Suspended (length (futures s)), c1, futures s @ [Pending])"
    by blast
  then show ?thesis
  proof cases
    case 1
    with Some show ?thesis by (simp add: get_resume_def settle_def)
  next
    case 2
    with Some assms show ?thesis by (simp add: get_resume_def settle_def)
  next
    case 3
    with Some show ?thesis by (simp add: get_resume_def settle_def)
  qed
qed

lemma get_step_ok:
  assumes "candidate_ok dec (futures s) t"
  shows "candidate_ok dec (futures (snd (get_step dec t s))) (fst (get_step dec t s))
    \<and> (\<exists>xs. futures (snd (get_step dec t s)) = futures s @ xs)"
proof (cases t)
  case (Created nm min_id tmo)
  with assms get_start_ok [of dec min_id nm s] show ?thesis by simp
next
  case (Scheduled nm co tmo)
  with assms show ?thesis by simp
next
  case (Awaiting nm co f tmo)
  with assms get_resume_ok [of f s dec nm co] show ?thesis by simp
next
  case (Finished r)
  with assms show ?thesis by simp
qed

lemma get_timeout_ok: "candidate_ok dec (futures s) t \<Longrightarrow> get_timeout t s = (t, s)"
  by (cases t) (simp_all add: get_deadline_def)

lemma exec_length: "length (fst (exec dec e (ts, s))) = length ts"
  by (cases e) (simp_all add: split_beta)

lemma run_length: "length (fst (run dec es (ts, s))) = length ts"
proof (induction es arbitrary: ts s)
  case Nil
  show ?case by simp
next
  case (Cons e es)
  obtain ts1 s1 where e: "exec dec e (ts, s) = (ts1, s1)" by (cases "exec dec e (ts, s)")
  with exec_length [of dec e ts s] Cons.IH [of ts1 s1] show ?case by simp
qed

lemma exec_ok:
  assumes "\<forall>t\<in>set ts. candidate_ok dec (futures s) t"
  shows "\<forall>t\<in>set (fst (exec dec e (ts, s))). candidate_ok dec (futures (snd (exec dec e (ts, s)))) t"
proof (cases e)
  case (Push nm p)
  with assms show ?thesis by (simp add: candidate_ok_push)
next
  case (Step i)
  show ?thesis
  proof (cases "i < length ts")
    case True
    obtain t1 s1 where g: "get_step dec (ts ! i) s = (t1, s1)" by (cases "get_step dec (ts ! i) s")
    from True assms have "candidate_ok dec (futures s) (ts ! i)" by simp
    from get_step_ok [OF this] g obtain xs where
      ok: "candidate_ok dec (futures s1) t1" and ap: "futures s1 = futures s @ xs" by auto
    have "\<forall>t\<in>set (ts[i := t1]). candidate_ok dec (futures s1) t"
    proof
      fix t assume "t \<in> set (ts[i := t1])"
      then have "t = t1 \<or> t \<in> set ts"
        using set_update_subset_insert [of ts i t1] by auto
      with ok ap assms show "candidate_ok dec (futures s1) t"
        by (auto simp: candidate_ok_append)
    qed
    with Step True g show ?thesis by simp
  next
    case False
    with Step assms show ?thesis by simp
  qed
next
  case (Deadline i)
  show ?thesis
  proof (cases "i < length ts")
    case True
    with assms have "candidate_ok dec (futures s) (ts ! i)" by simp
    then have "get_timeout (ts ! i) s = (ts ! i, s)" by (rule get_timeout_ok)
    with Deadline True assms show ?thesis by simp
  next
    case False
    with Deadline assms show ?thesis by simp
  qed
qed

lemma run_ok:
  "\<forall>t\<in>set ts. candidate_ok dec (futures s) t \<Longrightarrow>
   \<forall>t\<in>set (fst (run dec es (ts, s))). candidate_ok dec (futures (snd (run dec es (ts, s)))) t"
proof (induction es arbitrary: ts s)
  case Nil
  then show ?case by simp
next
  case (Cons e es)
  obtain ts1 s1 where e: "exec dec e (ts, s) = (ts1, s1)" by (cases "exec dec e (ts, s)")
  with exec_ok [OF Cons.prems, where e = e] have "\<forall>t\<in>set ts1. candidate_ok dec (futures s1) t" by simp
  from Cons.IH [OF this] e show ?case by simp
qed

lemma results_set: "r \<in> set (results ts) \<longleftrightarrow> Finished r \<in> set ts"
  by (induction ts rule: results.induct) auto

lemma get_multiple_wake_in:
  "results ts \<noteq> [] \<Longrightarrow> Finished (get_multiple_wake ts) \<in> set ts"
proof -
  assume "results ts \<noteq> []"
  then obtain r rs where "results ts = r # rs" by (cases "results ts") auto
  then have "get_multiple_wake ts = r" "r \<in> set (results ts)"
    by (simp_all add: get_multiple_wake_def)
  then show ?thesis by (simp add: results_set)
qed

text \<open>
  Claim C8 as stated fails. The channel \<^verbatim>\<open>b\<close> holds the message 1; \<^verbatim>\<open>get_multiple\<close>
  watches \<^verbatim>\<open>a\<close> with the token \<^verbatim>\<open>abc\<close> and \<^verbatim>\<open>b\<close> with the token \<^verbatim>\<open>1\<close>. The task
  of \<^verbatim>\<open>b\<close> has produced its message, the task of \<^verbatim>\<open>a\<close> has raised \<^verbatim>\<open>ValueError\<close>,
  and when the set yields the task of \<^verbatim>\<open>a\<close> first the call raises \<^verbatim>\<open>ValueError\<close>
  and returns no message.
\<close>

theorem get_multiple_raises_counterexample:
  "get_multiple_start [(''a'', Some (str_of ''abc'')), (''b'', Some (str_of ''1''))] None
     = Racing [Created ''a'' (Some (str_of ''abc'')) None, Created ''b'' (Some (str_of ''1'')) None]
         None
   \<and> fst (run arabic_indic [Step 0, Step 1]
        ([Created ''a'' (Some (str_of ''abc'')) None, Created ''b'' (Some (str_of ''1'')) None],
         server_push ''b'' ''x'' TheodoreServer_init))
     = [Finished (Inl ValueError),
        Finished (Inr (Some \<lparr>channel_name = ''b'', msg_id = 1, data = ''x''\<rparr>))]
   \<and> get_multiple_resume False
        (Racing [Finished (Inl ValueError),
                 Finished (Inr (Some \<lparr>channel_name = ''b'', msg_id = 1, data = ''x''\<rparr>))] None)
     = Done (Inl ValueError)"
  by (simp add: get_multiple_start_def get_multiple_resume_def get_multiple_wake_def
      eval_defs int_py_defs)

text \<open>
  Claim C8, amended. \<^verbatim>\<open>get_multiple\<close> on a dictionary that is not empty makes one
  task of \<^verbatim>\<open>get\<close> per item, and these run interleaved with pushes in any order. When
  it is resumed, in whatever order the set of tasks is iterated: if no task has
  finished, it goes on waiting before the deadline and returns \<^verbatim>\<open>None\<close> once the
  deadline has passed; if a task has finished, it ends with the outcome of one finished
  task. When every selector is one that \<^verbatim>\<open>get\<close> accepts, that outcome is a message:
  the call returns exactly one message, the one that one of the finished tasks returned.
  (The task of a token that \<^verbatim>\<open>int\<close> cannot read raises \<^verbatim>\<open>ValueError\<close>, and that can be
  the outcome.)
\<close>

theorem get_multiple_first_completed:
  assumes "items \<noteq> []"
    and "set ds = set (fst (run dec es (map (\<lambda>(nm, min_id). Created nm min_id None) items, s)))"
  shows "get_multiple_start items tmo
           = Racing (map (\<lambda>(nm, min_id). Created nm min_id None) items) tmo
    \<and> length (fst (run dec es (map (\<lambda>(nm, min_id). Created nm min_id None) items, s)))
        = length items
    \<and> ((\<forall>t\<in>set ds. \<forall>r. t \<noteq> Finished r) \<longrightarrow>
          get_multiple_resume False (Racing ds tmo) = Racing ds tmo
          \<and> get_multiple_resume True (Racing ds (Some d)) = Done (Inr None))
    \<and> ((\<exists>r. Finished r \<in> set ds) \<longrightarrow>
          (\<exists>r. get_multiple_resume late (Racing ds tmo) = Done r \<and> Finished r \<in> set ds))
    \<and> ((\<forall>x\<in>set items. accepted dec (snd x)) \<longrightarrow> (\<exists>r. Finished r \<in> set ds) \<longrightarrow>
          (\<exists>m. get_multiple_resume late (Racing ds tmo) = Done (Inr (Some m))
             \<and> Finished (Inr (Some m)) \<in> set ds))"
proof -
  let ?cs = "map (\<lambda>(nm, min_id). Created nm min_id None) items"
  have 1: "get_multiple_start items tmo = Racing ?cs tmo"
    using assms(1) by (simp add: get_multiple_start_def)
  have 2: "length (fst (run dec es (?cs, s))) = length items"
    by (simp add: run_length)
  have none: "(\<forall>t\<in>set ds. \<forall>r. t \<noteq> Finished r) \<Longrightarrow> results ds = []"
  proof -
    assume a: "\<forall>t\<in>set ds. \<forall>r. t \<noteq> Finished r"
    show ?thesis
    proof (cases "results ds")
      case Nil
      then show ?thesis .
    next
      case (Cons r rs)
      then have "r \<in> set (results ds)" by simp
      then have "Finished r \<in> set ds" by (simp add: results_set)
      with a show ?thesis by blast
    qed
  qed
  have some: "(\<exists>r. Finished r \<in> set ds) \<Longrightarrow> results ds \<noteq> []"
  proof -
    assume "\<exists>r. Finished r \<in> set ds"
    then obtain r where "Finished r \<in> set ds" by blast
    then have "r \<in> set (results ds)" by (simp add: results_set)
    then show ?thesis by auto
  qed
  have 3: "(\<forall>t\<in>set ds. \<forall>r. t \<noteq> Finished r) \<Longrightarrow>
          get_multiple_resume False (Racing ds tmo) = Racing ds tmo
          \<and> get_multiple_resume True (Racing ds (Some d)) = Done (Inr None)"
    using none by (simp add: get_multiple_resume_def get_multiple_wake_def)
  have 4: "(\<exists>r. Finished r \<in> set ds) \<Longrightarrow>
          (\<exists>r. get_multiple_resume late (Racing ds tmo) = Done r \<and> Finished r \<in> set ds)"
  proof -
    assume "\<exists>r. Finished r \<in> set ds"
    then have ne: "results ds \<noteq> []" by (rule some)
    then have "get_multiple_resume late (Racing ds tmo) = Done (get_multiple_wake ds)"
      by (simp add: get_multiple_resume_def)
    with get_multiple_wake_in [OF ne] show ?thesis by blast
  qed
  have 5: "(\<forall>x\<in>set items. accepted dec (snd x)) \<Longrightarrow> (\<exists>r. Finished r \<in> set ds) \<Longrightarrow>
          (\<exists>m. get_multiple_resume late (Racing ds tmo) = Done (Inr (Some m))
             \<and> Finished (Inr (Some m)) \<in> set ds)"
  proof -
    assume acc: "\<forall>x\<in>set items. accepted dec (snd x)" and fin: "\<exists>r. Finished r \<in> set ds"
    have "\<forall>t\<in>set ?cs. candidate_ok dec (futures s) t"
      using acc by (auto simp: split_beta)
    from run_ok [OF this, where es = es] assms(2)
    have ok: "\<forall>t\<in>set ds. candidate_ok dec (futures (snd (run dec es (?cs, s)))) t" by simp
    from 4 [OF fin] obtain r where r: "get_multiple_resume late (Racing ds tmo) = Done r"
      "Finished r \<in> set ds" by blast
    with ok have "candidate_ok dec (futures (snd (run dec es (?cs, s)))) (Finished r)" by blast
    then obtain m where "r = Inr (Some m)"
      by (auto split: sum.splits option.splits)
    with r show ?thesis by blast
  qed
  from 1 2 3 4 5 show ?thesis by blast
qed

text \<open>
  Two channels watched, a push to the second: the call returns that message, while the
  task of the first channel is still suspended and is not the first the set yields.
\<close>

theorem get_multiple_first_completed_witness:
  "fst (run arabic_indic [Step 0, Step 1, Push ''b'' ''x'', Step 1]
      (map (\<lambda>(nm, min_id). Created nm min_id None)
         [(''a'', Some (str_of ''next'')), (''b'', Some (str_of ''1''))],
       TheodoreServer_init))
     = [Awaiting ''a'' Get_next 0 None,
        Finished (Inr (Some \<lparr>channel_name = ''b'', msg_id = 1, data = ''x''\<rparr>))]
   \<and> (\<exists>m. get_multiple_resume False
          (Racing [Awaiting ''a'' Get_next 0 None,
                   Finished (Inr (Some \<lparr>channel_name = ''b'', msg_id = 1, data = ''x''\<rparr>))] None)
         = Done (Inr (Some m))
        \<and> Finished (Inr (Some m))
            \<in> set [Awaiting ''a'' Get_next 0 None,
                   Finished (Inr (Some \<lparr>channel_name = ''b'', msg_id = 1, data = ''x''\<rparr>))])"
proof -
  let ?items = "[(''a'', Some (str_of ''next'')), (''b'', Some (str_of ''1''))]"
  let ?ds = "[Awaiting ''a'' Get_next 0 None,
              Finished (Inr (Some \<lparr>channel_name = ''b'', msg_id = 1, data = ''x''\<rparr>))]"
  have r: "fst (run arabic_indic [Step 0, Step 1, Push ''b'' ''x'', Step 1]
      (map (\<lambda>(nm, min_id). Created nm min_id None) ?items, TheodoreServer_init)) = ?ds"
    by (simp add: eval_defs int_py_defs get_resume_def coro_resume_def get_by_id_resume_def
        get_next_resume_def)
  have 1: "?items \<noteq> []" by simp
  have 2: "\<forall>x\<in>set ?items. accepted arabic_indic (snd x)"
    by (simp add: accepted_def int_py_defs)
  have 3: "set ?ds = set (fst (run arabic_indic [Step 0, Step 1, Push ''b'' ''x'', Step 1]
      (map (\<lambda>(nm, min_id). Created nm min_id None) ?items, TheodoreServer_init)))"
    by (simp only: r)
  have 4: "\<exists>r. Finished r \<in> set ?ds" by simp
  from get_multiple_first_completed [OF 1 3, of None undefined False] 2 4 r
  show ?thesis by blast
qed

end
